theory Spec2Isabelle
  imports Main
begin

section \<open>Data model of package treap\<close>

text \<open>
  A value of Go type \<open>*node\<close> is either the nil pointer or the address of a
  \<open>node\<close> struct with the fields value, size, priority, lson and rson. Every
  node is owned by exactly one parent (the package documents that the inputs
  of \<open>Merge\<close> and \<open>Split\<close> must not be used afterwards), so a pointer together
  with everything reachable from it is modelled as a tree; a function that
  rewires a node in place returns the rewired tree.

  Go's \<open>int\<close> is modelled by \<open>int\<close>. Subtree sizes count allocated nodes and
  stay far below \<open>2 ^ 63\<close>, so the arithmetic on sizes and on indices that were
  checked against a size (\<open>sync\<close>, \<open>split\<close>, \<open>export\<close>, \<open>Find\<close>) never leaves
  the 64-bit range. The subtraction \<open>index - 1\<close> that \<open>Insert\<close>, \<open>Cut\<close> and
  \<open>Delete\<close> apply to an argument of the caller is written with the 64-bit
  wrap-around (\<open>wrap64\<close>); it wraps for \<open>Cut\<close> at the least value of \<open>int\<close>.
\<close>

datatype node =
  nil
| Node (value_n: int) (size_n: int) (priority: int) (lson: node) (rson: node)

datatype Treap = Treap (root: node)

definition wrap64 :: "int \<Rightarrow> int" where
  "wrap64 x = (x + 2 ^ 63) mod 2 ^ 64 - 2 ^ 63"

section \<open>Internal functions\<close>

text \<open>\<open>sync\<close>: recompute the size of a node from the sizes of its children.\<close>

fun sync :: "node \<Rightarrow> node" where
  "sync nil = nil"
| "sync (Node v s p l r) =
     (let s1 = 1;
          s2 = (case l of nil \<Rightarrow> s1 | Node _ ls _ _ _ \<Rightarrow> s1 + ls);
          s3 = (case r of nil \<Rightarrow> s2 | Node _ rs _ _ _ \<Rightarrow> s2 + rs)
      in Node v s3 p l r)"

text \<open>\<open>merge\<close>: the node with the strictly greater priority becomes the root.\<close>

fun merge :: "node \<Rightarrow> node \<Rightarrow> node" where
  "merge nil n2 = n2"
| "merge (Node v1 s1 p1 l1 r1) nil = Node v1 s1 p1 l1 r1"
| "merge (Node v1 s1 p1 l1 r1) (Node v2 s2 p2 l2 r2) =
     (if p1 > p2
      then sync (Node v1 s1 p1 l1 (merge r1 (Node v2 s2 p2 l2 r2)))
      else sync (Node v2 s2 p2 (merge (Node v1 s1 p1 l1 r1) l2) r2))"

text \<open>
  \<open>split\<close>: both recursive calls receive the unchanged \<open>index\<close>, exactly as in
  the source (\<open>split(n.lson, index)\<close> and \<open>split(n.rson, index)\<close>).
\<close>

fun split :: "node \<Rightarrow> int \<Rightarrow> node \<times> node" where
  "split nil index = (nil, nil)"
| "split (Node v s p l r) index =
     (if index < 0 then (nil, Node v s p l r)
      else if index \<ge> s then (Node v s p l r, nil)
      else
        let position = (case l of nil \<Rightarrow> index | Node _ ls _ _ _ \<Rightarrow> index - ls)
        in if position < 0 then
             (case split l index of (l', r') \<Rightarrow> (l', sync (Node v s p r' r)))
           else if position > 0 then
             (case split r index of (l', r') \<Rightarrow> (sync (Node v s p l l'), r'))
           else (sync (Node v s p l nil), r))"

text \<open>
  \<open>export\<close> writes the values into the slice \<open>values\<close>, starting at \<open>position\<close>.
  The indexed store \<open>values[position] = n.value\<close> panics when the position is
  outside the slice; the panic is the result \<open>None\<close>.
\<close>

fun export :: "int list \<Rightarrow> int \<Rightarrow> node \<Rightarrow> int list option" where
  "export values position nil = Some values"
| "export values position (Node v s p l r) =
     (case (case l of
              nil \<Rightarrow> Some (values, position)
            | Node _ ls _ _ _ \<Rightarrow>
                (case export values position l of
                   None \<Rightarrow> None
                 | Some values' \<Rightarrow> Some (values', position + ls))) of
        None \<Rightarrow> None
      | Some (values', position') \<Rightarrow>
          if 0 \<le> position' \<and> position' < int (length values')
          then export (values'[nat position' := v]) (position' + 1) r
          else None)"

section \<open>Public interface\<close>

text \<open>
  A handle of type \<open>*Treap\<close> is \<open>None\<close> (the nil handle) or \<open>Some (Treap root)\<close>.
  A method that assigns \<open>t.root\<close> returns the handle's new state. Every call of
  \<open>rand.Int()\<close> is an input of the model: a method that draws one priority
  takes it as an argument, a method that draws one priority per value takes
  the function \<open>rnd\<close> giving the outcome of the k-th draw of the call.
\<close>

fun PushBack_loop :: "node \<Rightarrow> int list \<Rightarrow> (nat \<Rightarrow> int) \<Rightarrow> nat \<Rightarrow> node" where
  "PushBack_loop vroot [] rnd k = vroot"
| "PushBack_loop vroot (v # vs) rnd k =
     PushBack_loop (merge vroot (Node v 1 (rnd k) nil nil)) vs rnd (Suc k)"

definition PushBack :: "Treap option \<Rightarrow> int list \<Rightarrow> (nat \<Rightarrow> int) \<Rightarrow> Treap option" where
  "PushBack t vs rnd =
     (case t of
        None \<Rightarrow> None
      | Some (Treap rt) \<Rightarrow> Some (Treap (merge rt (PushBack_loop nil vs rnd 0))))"

fun PushFront_loop :: "node \<Rightarrow> int list \<Rightarrow> (nat \<Rightarrow> int) \<Rightarrow> nat \<Rightarrow> node" where
  "PushFront_loop vroot [] rnd k = vroot"
| "PushFront_loop vroot (v # vs) rnd k =
     PushFront_loop (merge (Node v 1 (rnd k) nil nil) vroot) vs rnd (Suc k)"

definition PushFront :: "Treap option \<Rightarrow> int list \<Rightarrow> (nat \<Rightarrow> int) \<Rightarrow> Treap option" where
  "PushFront t vs rnd =
     (case t of
        None \<Rightarrow> None
      | Some (Treap rt) \<Rightarrow> Some (Treap (merge (PushFront_loop nil vs rnd 0) rt)))"

definition Create :: "int list \<Rightarrow> (nat \<Rightarrow> int) \<Rightarrow> Treap option" where
  "Create vs rnd = PushBack (Some (Treap nil)) vs rnd"

definition Merge :: "Treap option \<Rightarrow> Treap option \<Rightarrow> Treap option" where
  "Merge t1 t2 =
     (case t1 of
        None \<Rightarrow> t2
      | Some (Treap r1) \<Rightarrow>
          (case t2 of
             None \<Rightarrow> t1
           | Some (Treap r2) \<Rightarrow> Some (Treap (merge r1 r2))))"

definition Split :: "Treap option \<Rightarrow> int \<Rightarrow> Treap option \<times> Treap option" where
  "Split t index =
     (case t of
        None \<Rightarrow> (None, None)
      | Some (Treap rt) \<Rightarrow>
          (case split rt index of (l, r) \<Rightarrow> (Some (Treap l), Some (Treap r))))"

definition Insert :: "Treap option \<Rightarrow> int \<Rightarrow> int \<Rightarrow> int \<Rightarrow> Treap option" where
  "Insert t index v prio =
     (case t of
        None \<Rightarrow> None
      | Some (Treap nil) \<Rightarrow> Some (Treap (Node v 1 prio nil nil))
      | Some (Treap (Node rv rs rp rl rr)) \<Rightarrow>
          if index \<le> 0 then PushFront t [v] (\<lambda>_. prio)
          else if index \<ge> rs - 1 then PushBack t [v] (\<lambda>_. prio)
          else
            (case split (Node rv rs rp rl rr) (wrap64 (index - 1)) of
               (l, r) \<Rightarrow> Some (Treap (merge (merge l (Node v 1 prio nil nil)) r))))"

definition Cut :: "Treap option \<Rightarrow> int \<Rightarrow> int \<Rightarrow> Treap option" where
  "Cut t index_left index_right =
     (case t of
        None \<Rightarrow> None
      | Some (Treap nil) \<Rightarrow> t
      | Some (Treap (Node rv rs rp rl rr)) \<Rightarrow>
          if index_left > index_right then t
          else if index_right < 0 \<or> index_left \<ge> rs then t
          else
            (case split (Node rv rs rp rl rr) (wrap64 (index_left - 1)) of
               (l, k) \<Rightarrow>
                 (case split k index_right of
                    (_, r) \<Rightarrow> Some (Treap (merge l r)))))"

definition Delete :: "Treap option \<Rightarrow> int \<Rightarrow> Treap option" where
  "Delete t index =
     (case t of
        None \<Rightarrow> None
      | Some (Treap nil) \<Rightarrow> t
      | Some (Treap (Node rv rs rp rl rr)) \<Rightarrow>
          if index < 0 \<or> index \<ge> rs then t
          else
            (case split (Node rv rs rp rl rr) (wrap64 (index - 1)) of
               (l, k) \<Rightarrow>
                 (case split k index of
                    (_, r) \<Rightarrow> Some (Treap (merge l r)))))"

text \<open>
  The read-only methods return their result together with the state of the
  handle after the call.
\<close>

definition Size :: "Treap option \<Rightarrow> int \<times> Treap option" where
  "Size t =
     (case t of
        None \<Rightarrow> (0, t)
      | Some (Treap nil) \<Rightarrow> (0, t)
      | Some (Treap (Node rv rs rp rl rr)) \<Rightarrow> (rs, t))"

text \<open>The loop of \<open>Find\<close>, with its local variables \<open>n\<close> and \<open>index\<close>.\<close>

fun Find_loop :: "node \<Rightarrow> int \<Rightarrow> int" where
  "Find_loop nil index = 0"
| "Find_loop (Node v s p l r) index =
     (case (case l of
              nil \<Rightarrow> (0, index, index)
            | Node _ ls _ _ _ \<Rightarrow> (ls, index - ls, index - ls)) of
        (lsize, position, index') \<Rightarrow>
          if position < 0 then Find_loop l (index' + lsize)
          else if position > 0 then Find_loop r (index' - 1)
          else v)"

definition Find :: "Treap option \<Rightarrow> int \<Rightarrow> int \<times> Treap option" where
  "Find t index =
     (case t of
        None \<Rightarrow> (0, t)
      | Some (Treap nil) \<Rightarrow> (0, t)
      | Some (Treap (Node rv rs rp rl rr)) \<Rightarrow>
          if index < 0 \<or> index \<ge> rs then (0, t)
          else (Find_loop (Node rv rs rp rl rr) index, t))"

text \<open>
  \<open>Export\<close>: the nil slice is the empty list; \<open>make([]int, size)\<close> is a slice of
  \<open>size\<close> zeros and panics for a negative size. A panic is \<open>None\<close>.
\<close>

definition Export :: "Treap option \<Rightarrow> int list option \<times> Treap option" where
  "Export t =
     (case t of
        None \<Rightarrow> (Some [], t)
      | Some (Treap nil) \<Rightarrow> (Some [], t)
      | Some (Treap (Node rv rs rp rl rr)) \<Rightarrow>
          (if rs < 0 then None
           else export (replicate (nat rs) 0) 0 (Node rv rs rp rl rr), t))"

section \<open>The represented sequence and the invariants\<close>

text \<open>The sequence a tree stands for: its values in in-order.\<close>

fun seq_of :: "node \<Rightarrow> int list" where
  "seq_of nil = []"
| "seq_of (Node v s p l r) = seq_of l @ v # seq_of r"

text \<open>The cached size of a subtree, 0 for an absent one.\<close>

fun cached_size :: "node \<Rightarrow> int" where
  "cached_size nil = 0"
| "cached_size (Node v s p l r) = s"

text \<open>Size invariant: every node has \<open>size = 1 + leftSize + rightSize\<close>.\<close>

fun size_ok :: "node \<Rightarrow> bool" where
  "size_ok nil = True"
| "size_ok (Node v s p l r) =
     (s = 1 + cached_size l + cached_size r \<and> size_ok l \<and> size_ok r)"

text \<open>\<open>prio_ge q n\<close>: the node \<open>n\<close> is absent or its priority is at most \<open>q\<close>.\<close>

fun prio_ge :: "int \<Rightarrow> node \<Rightarrow> bool" where
  "prio_ge q nil = True"
| "prio_ge q (Node v s p l r) = (q \<ge> p)"

text \<open>Heap invariant: every node's priority is at least that of each present child.\<close>

fun heap_ok :: "node \<Rightarrow> bool" where
  "heap_ok nil = True"
| "heap_ok (Node v s p l r) =
     (prio_ge p l \<and> prio_ge p r \<and> heap_ok l \<and> heap_ok r)"

text \<open>The invariants and the sequence of a handle; the nil handle has no node.\<close>

fun sizes_ok :: "Treap option \<Rightarrow> bool" where
  "sizes_ok None = True"
| "sizes_ok (Some (Treap rt)) = size_ok rt"

fun heaps_ok :: "Treap option \<Rightarrow> bool" where
  "heaps_ok None = True"
| "heaps_ok (Some (Treap rt)) = heap_ok rt"

fun contents :: "Treap option \<Rightarrow> int list" where
  "contents None = []"
| "contents (Some (Treap rt)) = seq_of rt"

text \<open>
  The handles that a program can hold after a finite sequence of calls of the
  public interface, for any outcome of the priority draws. It starts from
  \<open>Create\<close> or from a nil handle; \<open>Merge\<close> consumes two distinct handles and
  \<open>Split\<close> consumes one, and a consumed handle is not used again, as the
  package requires ("Old treaps must not be used afterwards"): each handle
  owns its own nodes.
\<close>

inductive reachable :: "Treap option \<Rightarrow> bool" where
  r_nil: "reachable None"
| r_Create: "reachable (Create vs rnd)"
| r_Merge: "reachable t1 \<Longrightarrow> reachable t2 \<Longrightarrow> reachable (Merge t1 t2)"
| r_Split_l: "reachable t \<Longrightarrow> reachable (fst (Split t index))"
| r_Split_r: "reachable t \<Longrightarrow> reachable (snd (Split t index))"
| r_Insert: "reachable t \<Longrightarrow> reachable (Insert t index v prio)"
| r_PushFront: "reachable t \<Longrightarrow> reachable (PushFront t vs rnd)"
| r_PushBack: "reachable t \<Longrightarrow> reachable (PushBack t vs rnd)"
| r_Cut: "reachable t \<Longrightarrow> reachable (Cut t index_left index_right)"
| r_Delete: "reachable t \<Longrightarrow> reachable (Delete t index)"

text \<open>Two outcomes of the draws used in the examples: falling and rising priorities.\<close>

definition falling :: "nat \<Rightarrow> int" where
  "falling k = int (1000 - k)"

definition rising :: "nat \<Rightarrow> int" where
  "rising k = int k"

section \<open>Properties of the internal functions\<close>

lemma sync_Node: "sync (Node v s p l r) = Node v (1 + cached_size l + cached_size r) p l r"
  by (cases l; cases r) simp_all

declare sync.simps [simp del]

lemma size_ok_length: "size_ok n \<Longrightarrow> cached_size n = int (length (seq_of n))"
  by (induction n) auto

lemma seq_of_merge: "seq_of (merge a b) = seq_of a @ seq_of b"
  by (induction a b rule: merge.induct) (simp_all add: sync_Node)

lemma cached_size_merge:
  "size_ok a \<Longrightarrow> size_ok b \<Longrightarrow> cached_size (merge a b) = cached_size a + cached_size b"
  by (induction a b rule: merge.induct) (simp_all add: sync_Node)

lemma size_ok_merge: "size_ok a \<Longrightarrow> size_ok b \<Longrightarrow> size_ok (merge a b)"
  by (induction a b rule: merge.induct) (simp_all add: sync_Node cached_size_merge)

lemma prio_ge_merge: "prio_ge q a \<Longrightarrow> prio_ge q b \<Longrightarrow> prio_ge q (merge a b)"
  by (induction a b rule: merge.induct) (simp_all add: sync_Node)

lemma heap_ok_merge: "heap_ok a \<Longrightarrow> heap_ok b \<Longrightarrow> heap_ok (merge a b)"
  by (induction a b rule: merge.induct) (auto simp add: sync_Node intro!: prio_ge_merge)

lemma prio_ge_trans: "prio_ge q (Node v s p l r) \<Longrightarrow> prio_ge p n \<Longrightarrow> prio_ge q n"
  by (cases n) auto

lemma split_Node:
  "split (Node v s p l r) i =
     (if i < 0 then (nil, Node v s p l r)
      else if i \<ge> s then (Node v s p l r, nil)
      else if i < cached_size l then
        (fst (split l i), Node v (1 + cached_size (snd (split l i)) + cached_size r) p (snd (split l i)) r)
      else if i > cached_size l then
        (Node v (1 + cached_size l + cached_size (fst (split r i))) p l (fst (split r i)), snd (split r i))
      else (Node v (1 + cached_size l) p l nil, r))"
  by (cases l) (simp_all add: sync_Node Let_def split: prod.splits)

declare split.simps(2) [simp del]

lemma seq_of_split: "seq_of (fst (split n i)) @ seq_of (snd (split n i)) = seq_of n"
  by (induction n arbitrary: i) (simp_all add: split_Node)

lemma size_ok_split: "size_ok n \<Longrightarrow> size_ok (fst (split n i)) \<and> size_ok (snd (split n i))"
  by (induction n arbitrary: i) (simp_all add: split_Node)

lemma prio_ge_split:
  "heap_ok n \<Longrightarrow> prio_ge q n \<Longrightarrow> prio_ge q (fst (split n i)) \<and> prio_ge q (snd (split n i))"
proof (induction n arbitrary: i q)
  case nil
  then show ?case by simp
next
  case (Node v s p l r)
  have l: "prio_ge q l" and r: "prio_ge q r"
    using Node.prems prio_ge_trans[of q v s p l r] by auto
  from Node.prems have "heap_ok l" "heap_ok r" by simp_all
  with Node.IH l r show ?case
    using Node.prems(2) by (simp add: split_Node)
qed

lemma heap_ok_split: "heap_ok n \<Longrightarrow> heap_ok (fst (split n i)) \<and> heap_ok (snd (split n i))"
  by (induction n arbitrary: i) (simp_all add: split_Node prio_ge_split)

lemma export_Node:
  "export vals pos (Node v s p l r) =
     (case export vals pos l of
        None \<Rightarrow> None
      | Some vals' \<Rightarrow>
          if 0 \<le> pos + cached_size l \<and> pos + cached_size l < int (length vals')
          then export (vals'[nat (pos + cached_size l) := v]) (pos + cached_size l + 1) r
          else None)"
  by (cases l) (simp_all split: option.splits)

declare export.simps(2) [simp del]

lemma export_fills:
  "size_ok n \<Longrightarrow> length M = length (seq_of n) \<Longrightarrow>
   export (A @ M @ D) (int (length A)) n = Some (A @ seq_of n @ D)"
proof (induction n arbitrary: A M D)
  case nil
  then show ?case by simp
next
  case (Node v s p l r)
  let ?L = "seq_of l" and ?R = "seq_of r"
  let ?k = "length ?L"
  from Node.prems have ok: "size_ok l" "size_ok r" by simp_all
  from Node.prems(2) have len: "length M = ?k + 1 + length ?R" by simp
  define Pl where "Pl = take ?k M"
  define m where "m = M ! ?k"
  define Pr where "Pr = drop (Suc ?k) M"
  have M: "M = Pl @ m # Pr"
    unfolding Pl_def m_def Pr_def using len by (simp add: id_take_nth_drop)
  have lPl: "length Pl = ?k" and lPr: "length Pr = length ?R"
    unfolding Pl_def Pr_def using len by simp_all
  have e1: "export (A @ M @ D) (int (length A)) l = Some (A @ ?L @ m # Pr @ D)"
    using Node.IH(1)[OF ok(1) lPl, of A "m # Pr @ D"] by (simp add: M)
  have upd: "(A @ ?L @ m # Pr @ D)[nat (int (length A) + cached_size l) := v]
               = (A @ ?L @ [v]) @ Pr @ D"
    using size_ok_length[OF ok(1)] by (simp add: list_update_append nat_add_distrib)
  have pos: "int (length A) + cached_size l + 1 = int (length (A @ ?L @ [v]))"
    using size_ok_length[OF ok(1)] by simp
  have e2: "export ((A @ ?L @ [v]) @ Pr @ D) (int (length (A @ ?L @ [v]))) r
              = Some ((A @ ?L @ [v]) @ ?R @ D)"
    by (rule Node.IH(2)[OF ok(2) lPr])
  have cl: "cached_size l = int ?k" by (rule size_ok_length[OF ok(1)])
  have "export (A @ M @ D) (int (length A)) (Node v s p l r)
          = export ((A @ ?L @ m # Pr @ D)[nat (int (length A) + cached_size l) := v])
              (int (length A) + cached_size l + 1) r"
    unfolding export_Node e1 using cl by simp
  also have "\<dots> = export ((A @ ?L @ [v]) @ Pr @ D) (int (length (A @ ?L @ [v]))) r"
    by (simp only: upd pos)
  also note e2
  finally show ?case by simp
qed

lemma Find_loop_Node:
  "Find_loop (Node v s p l r) i =
     (if i < cached_size l then Find_loop l i
      else if i > cached_size l then Find_loop r (i - cached_size l - 1)
      else v)"
  by (cases l) simp_all

declare Find_loop.simps(2) [simp del]

lemma Find_loop_nth:
  "size_ok n \<Longrightarrow> 0 \<le> i \<Longrightarrow> i < cached_size n \<Longrightarrow> Find_loop n i = seq_of n ! nat i"
proof (induction n arbitrary: i)
  case nil
  then show ?case by simp
next
  case (Node v s p l r)
  from Node.prems have ok: "size_ok l" "size_ok r" by simp_all
  have cl: "cached_size l = int (length (seq_of l))" by (rule size_ok_length[OF ok(1)])
  have s: "s = 1 + cached_size l + cached_size r" using Node.prems by simp
  consider "i < cached_size l" | "i = cached_size l" | "i > cached_size l" by linarith
  then show ?case
  proof cases
    case 1
    moreover have "nat i < length (seq_of l)" using 1 cl Node.prems(2) by linarith
    ultimately show ?thesis
      using Node.IH(1)[OF ok(1) Node.prems(2)]
      by (simp add: Find_loop_Node nth_append)
  next
    case 2
    then show ?thesis using cl by (simp add: Find_loop_Node nth_append)
  next
    case 3
    have "Find_loop r (i - cached_size l - 1) = seq_of r ! nat (i - cached_size l - 1)"
      using 3 Node.prems(3) s by (intro Node.IH(2)[OF ok(2)]) simp_all
    moreover have "nat i - length (seq_of l) = Suc (nat (i - cached_size l - 1))"
      using 3 cl Node.prems(2) by linarith
    moreover have "\<not> nat i < length (seq_of l)" using 3 cl by linarith
    ultimately show ?thesis
      using 3 cl by (simp add: Find_loop_Node nth_append)
  qed
qed

subsection \<open>The loops of PushBack and PushFront\<close>

lemma seq_of_PushBack_loop: "seq_of (PushBack_loop vroot vs rnd k) = seq_of vroot @ vs"
  by (induction vs arbitrary: vroot k) (simp_all add: seq_of_merge)

lemma size_ok_PushBack_loop: "size_ok vroot \<Longrightarrow> size_ok (PushBack_loop vroot vs rnd k)"
  by (induction vs arbitrary: vroot k) (simp_all add: size_ok_merge)

lemma heap_ok_PushBack_loop: "heap_ok vroot \<Longrightarrow> heap_ok (PushBack_loop vroot vs rnd k)"
  by (induction vs arbitrary: vroot k) (simp_all add: heap_ok_merge)

lemma seq_of_PushFront_loop: "seq_of (PushFront_loop vroot vs rnd k) = rev vs @ seq_of vroot"
  by (induction vs arbitrary: vroot k) (simp_all add: seq_of_merge)

lemma size_ok_PushFront_loop: "size_ok vroot \<Longrightarrow> size_ok (PushFront_loop vroot vs rnd k)"
  by (induction vs arbitrary: vroot k) (simp_all add: size_ok_merge)

lemma heap_ok_PushFront_loop: "heap_ok vroot \<Longrightarrow> heap_ok (PushFront_loop vroot vs rnd k)"
  by (induction vs arbitrary: vroot k) (simp_all add: heap_ok_merge)

section \<open>Properties of the public interface\<close>

lemma sizes_ok_PushBack: "sizes_ok t \<Longrightarrow> sizes_ok (PushBack t vs rnd)"
  by (cases t rule: sizes_ok.cases)
     (simp_all add: PushBack_def size_ok_merge size_ok_PushBack_loop)

lemma heaps_ok_PushBack: "heaps_ok t \<Longrightarrow> heaps_ok (PushBack t vs rnd)"
  by (cases t rule: sizes_ok.cases)
     (simp_all add: PushBack_def heap_ok_merge heap_ok_PushBack_loop)

lemma contents_PushBack: "contents (PushBack (Some tr) vs rnd) = contents (Some tr) @ vs"
  by (cases tr) (simp add: PushBack_def seq_of_merge seq_of_PushBack_loop)

lemma sizes_ok_PushFront: "sizes_ok t \<Longrightarrow> sizes_ok (PushFront t vs rnd)"
  by (cases t rule: sizes_ok.cases)
     (simp_all add: PushFront_def size_ok_merge size_ok_PushFront_loop)

lemma heaps_ok_PushFront: "heaps_ok t \<Longrightarrow> heaps_ok (PushFront t vs rnd)"
  by (cases t rule: sizes_ok.cases)
     (simp_all add: PushFront_def heap_ok_merge heap_ok_PushFront_loop)

lemma contents_PushFront: "contents (PushFront (Some tr) vs rnd) = rev vs @ contents (Some tr)"
  by (cases tr) (simp add: PushFront_def seq_of_merge seq_of_PushFront_loop)

lemma sizes_ok_Create: "sizes_ok (Create vs rnd)"
  by (simp add: Create_def sizes_ok_PushBack)

lemma heaps_ok_Create: "heaps_ok (Create vs rnd)"
  by (simp add: Create_def heaps_ok_PushBack)

lemma sizes_ok_Merge: "sizes_ok t1 \<Longrightarrow> sizes_ok t2 \<Longrightarrow> sizes_ok (Merge t1 t2)"
  by (cases t1 rule: sizes_ok.cases; cases t2 rule: sizes_ok.cases)
     (simp_all add: Merge_def size_ok_merge)

lemma heaps_ok_Merge: "heaps_ok t1 \<Longrightarrow> heaps_ok t2 \<Longrightarrow> heaps_ok (Merge t1 t2)"
  by (cases t1 rule: sizes_ok.cases; cases t2 rule: sizes_ok.cases)
     (simp_all add: Merge_def heap_ok_merge)

lemma Split_Some:
  "Split (Some (Treap rt)) i = (Some (Treap (fst (split rt i))), Some (Treap (snd (split rt i))))"
  by (simp add: Split_def split: prod.splits)

lemma sizes_ok_Split: "sizes_ok t \<Longrightarrow> sizes_ok (fst (Split t i)) \<and> sizes_ok (snd (Split t i))"
  by (cases t rule: sizes_ok.cases) (simp_all add: Split_Some size_ok_split, simp add: Split_def)

lemma heaps_ok_Split: "heaps_ok t \<Longrightarrow> heaps_ok (fst (Split t i)) \<and> heaps_ok (snd (Split t i))"
  by (cases t rule: sizes_ok.cases) (simp_all add: Split_Some heap_ok_split, simp add: Split_def)

lemma Insert_Node:
  "Insert (Some (Treap (Node rv rs rp rl rr))) i v q =
     (if i \<le> 0 then PushFront (Some (Treap (Node rv rs rp rl rr))) [v] (\<lambda>_. q)
      else if i \<ge> rs - 1 then PushBack (Some (Treap (Node rv rs rp rl rr))) [v] (\<lambda>_. q)
      else Some (Treap (merge (merge (fst (split (Node rv rs rp rl rr) (wrap64 (i - 1))))
                                     (Node v 1 q nil nil))
                              (snd (split (Node rv rs rp rl rr) (wrap64 (i - 1)))))))"
  by (simp add: Insert_def split: prod.splits)

lemma Cut_Node:
  "Cut (Some (Treap (Node rv rs rp rl rr))) il ir =
     (if il > ir then Some (Treap (Node rv rs rp rl rr))
      else if ir < 0 \<or> il \<ge> rs then Some (Treap (Node rv rs rp rl rr))
      else Some (Treap (merge (fst (split (Node rv rs rp rl rr) (wrap64 (il - 1))))
                 (snd (split (snd (split (Node rv rs rp rl rr) (wrap64 (il - 1)))) ir)))))"
  by (simp add: Cut_def split: prod.splits)

lemma Delete_Node:
  "Delete (Some (Treap (Node rv rs rp rl rr))) i =
     (if i < 0 \<or> i \<ge> rs then Some (Treap (Node rv rs rp rl rr))
      else Some (Treap (merge (fst (split (Node rv rs rp rl rr) (wrap64 (i - 1))))
                 (snd (split (snd (split (Node rv rs rp rl rr) (wrap64 (i - 1)))) i)))))"
  by (simp add: Delete_def split: prod.splits)

lemma sizes_ok_Insert: "sizes_ok t \<Longrightarrow> sizes_ok (Insert t i v q)"
proof (cases t rule: sizes_ok.cases)
  case 1
  then show ?thesis by (simp add: Insert_def)
next
  case (2 rt)
  assume ok: "sizes_ok t"
  show ?thesis
  proof (cases rt)
    case nil
    with 2 show ?thesis by (simp add: Insert_def)
  next
    case (Node rv rs rp rl rr)
    then show ?thesis
      using ok sizes_ok_PushFront[OF ok] sizes_ok_PushBack[OF ok] size_ok_split[of rt "wrap64 (i - 1)"]
      unfolding 2 Node Insert_Node by (simp add: size_ok_merge)
  qed
qed

lemma heaps_ok_Insert: "heaps_ok t \<Longrightarrow> heaps_ok (Insert t i v q)"
proof (cases t rule: sizes_ok.cases)
  case 1
  then show ?thesis by (simp add: Insert_def)
next
  case (2 rt)
  assume ok: "heaps_ok t"
  show ?thesis
  proof (cases rt)
    case nil
    with 2 show ?thesis by (simp add: Insert_def)
  next
    case (Node rv rs rp rl rr)
    then show ?thesis
      using ok heaps_ok_PushFront[OF ok] heaps_ok_PushBack[OF ok] heap_ok_split[of rt "wrap64 (i - 1)"]
      unfolding 2 Node Insert_Node by (simp add: heap_ok_merge)
  qed
qed

lemma sizes_ok_Cut: "sizes_ok t \<Longrightarrow> sizes_ok (Cut t il ir)"
proof (cases t rule: sizes_ok.cases)
  case 1
  then show ?thesis by (simp add: Cut_def)
next
  case (2 rt)
  assume ok: "sizes_ok t"
  show ?thesis
  proof (cases rt)
    case nil
    with 2 show ?thesis by (simp add: Cut_def)
  next
    case (Node rv rs rp rl rr)
    have "size_ok (fst (split rt j))" "size_ok (snd (split (snd (split rt j)) k))" for j k
      using ok 2 size_ok_split by simp_all
    then show ?thesis
      using ok unfolding 2 Node Cut_Node by (simp add: size_ok_merge)
  qed
qed

lemma heaps_ok_Cut: "heaps_ok t \<Longrightarrow> heaps_ok (Cut t il ir)"
proof (cases t rule: sizes_ok.cases)
  case 1
  then show ?thesis by (simp add: Cut_def)
next
  case (2 rt)
  assume ok: "heaps_ok t"
  show ?thesis
  proof (cases rt)
    case nil
    with 2 show ?thesis by (simp add: Cut_def)
  next
    case (Node rv rs rp rl rr)
    have "heap_ok (fst (split rt j))" "heap_ok (snd (split (snd (split rt j)) k))" for j k
      using ok 2 heap_ok_split by simp_all
    then show ?thesis
      using ok unfolding 2 Node Cut_Node by (simp add: heap_ok_merge)
  qed
qed

lemma sizes_ok_Delete: "sizes_ok t \<Longrightarrow> sizes_ok (Delete t i)"
proof (cases t rule: sizes_ok.cases)
  case 1
  then show ?thesis by (simp add: Delete_def)
next
  case (2 rt)
  assume ok: "sizes_ok t"
  show ?thesis
  proof (cases rt)
    case nil
    with 2 show ?thesis by (simp add: Delete_def)
  next
    case (Node rv rs rp rl rr)
    have "size_ok (fst (split rt j))" "size_ok (snd (split (snd (split rt j)) k))" for j k
      using ok 2 size_ok_split by simp_all
    then show ?thesis
      using ok unfolding 2 Node Delete_Node by (simp add: size_ok_merge)
  qed
qed

lemma heaps_ok_Delete: "heaps_ok t \<Longrightarrow> heaps_ok (Delete t i)"
proof (cases t rule: sizes_ok.cases)
  case 1
  then show ?thesis by (simp add: Delete_def)
next
  case (2 rt)
  assume ok: "heaps_ok t"
  show ?thesis
  proof (cases rt)
    case nil
    with 2 show ?thesis by (simp add: Delete_def)
  next
    case (Node rv rs rp rl rr)
    have "heap_ok (fst (split rt j))" "heap_ok (snd (split (snd (split rt j)) k))" for j k
      using ok 2 heap_ok_split by simp_all
    then show ?thesis
      using ok unfolding 2 Node Delete_Node by (simp add: heap_ok_merge)
  qed
qed

lemma reachable_sizes_ok: "reachable t \<Longrightarrow> sizes_ok t"
proof (induction rule: reachable.induct)
  case r_nil
  show ?case by simp
next
  case (r_Create vs rnd)
  show ?case by (rule sizes_ok_Create)
next
  case (r_Merge t1 t2)
  then show ?case by (simp add: sizes_ok_Merge)
next
  case (r_Split_l t index)
  then show ?case by (simp add: sizes_ok_Split)
next
  case (r_Split_r t index)
  then show ?case by (simp add: sizes_ok_Split)
next
  case (r_Insert t index v prio)
  then show ?case by (simp add: sizes_ok_Insert)
next
  case (r_PushFront t vs rnd)
  then show ?case by (simp add: sizes_ok_PushFront)
next
  case (r_PushBack t vs rnd)
  then show ?case by (simp add: sizes_ok_PushBack)
next
  case (r_Cut t index_left index_right)
  then show ?case by (simp add: sizes_ok_Cut)
next
  case (r_Delete t index)
  then show ?case by (simp add: sizes_ok_Delete)
qed

lemma reachable_heaps_ok: "reachable t \<Longrightarrow> heaps_ok t"
  by (induction rule: reachable.induct)
     (simp_all add: heaps_ok_Create heaps_ok_Merge heaps_ok_Split heaps_ok_Insert
        heaps_ok_PushFront heaps_ok_PushBack heaps_ok_Cut heaps_ok_Delete)

subsection \<open>What the read-only methods return\<close>

lemma Export_contents: "sizes_ok t \<Longrightarrow> Export t = (Some (contents t), t)"
proof (cases t rule: sizes_ok.cases)
  case 1
  then show ?thesis by (simp add: Export_def)
next
  case (2 rt)
  assume ok: "sizes_ok t"
  show ?thesis
  proof (cases rt)
    case nil
    with 2 show ?thesis by (simp add: Export_def)
  next
    case (Node rv rs rp rl rr)
    from ok 2 have sz: "size_ok rt" by simp
    have len: "rs = int (length (seq_of rt))"
      using size_ok_length[OF sz] Node by simp
    have "export ([] @ replicate (nat rs) 0 @ []) (int (length ([]::int list))) rt
            = Some ([] @ seq_of rt @ [])"
      by (rule export_fills[OF sz]) (simp add: len)
    then show ?thesis
      using len unfolding 2 Node by (simp add: Export_def)
  qed
qed

lemma Size_contents: "sizes_ok t \<Longrightarrow> Size t = (int (length (contents t)), t)"
proof (cases t rule: sizes_ok.cases)
  case 1
  then show ?thesis by (simp add: Size_def)
next
  case (2 rt)
  assume ok: "sizes_ok t"
  then show ?thesis
    using size_ok_length[of rt] 2 by (cases rt) (simp_all add: Size_def)
qed

lemma Find_contents:
  "sizes_ok t \<Longrightarrow> 0 \<le> i \<Longrightarrow> i < int (length (contents t)) \<Longrightarrow> Find t i = (contents t ! nat i, t)"
proof (cases t rule: sizes_ok.cases)
  case 1
  assume "i < int (length (contents t))" "0 \<le> i"
  with 1 show ?thesis by simp
next
  case (2 rt)
  assume ok: "sizes_ok t" and i: "0 \<le> i" "i < int (length (contents t))"
  show ?thesis
  proof (cases rt)
    case nil
    with 2 i show ?thesis by simp
  next
    case (Node rv rs rp rl rr)
    from ok 2 have sz: "size_ok rt" by simp
    have len: "rs = int (length (seq_of rt))"
      using size_ok_length[OF sz] Node by simp
    have "Find_loop rt i = seq_of rt ! nat i"
      using i 2 size_ok_length[OF sz] by (intro Find_loop_nth[OF sz]) simp_all
    then show ?thesis
      using i len unfolding 2 Node by (simp add: Find_def)
  qed
qed

lemma contents_Insert_clamped:
  assumes "sizes_ok (Some tr)"
  shows "(contents (Some tr) = [] \<longrightarrow> contents (Insert (Some tr) i v q) = [v]) \<and>
         (contents (Some tr) \<noteq> [] \<and> i \<le> 0 \<longrightarrow>
            contents (Insert (Some tr) i v q) = v # contents (Some tr)) \<and>
         (contents (Some tr) \<noteq> [] \<and> 0 < i \<and> int (length (contents (Some tr))) - 1 \<le> i \<longrightarrow>
            contents (Insert (Some tr) i v q) = contents (Some tr) @ [v])"
proof (cases tr)
  case (Treap rt)
  show ?thesis
  proof (cases rt)
    case nil
    then show ?thesis using Treap by (simp add: Insert_def)
  next
    case (Node rv rs rp rl rr)
    have "rs = int (length (seq_of rt))"
      using assms Treap Node size_ok_length[of rt] by simp
    then show ?thesis
      unfolding Treap Node Insert_Node
      by (simp add: contents_PushFront contents_PushBack)
  qed
qed

section \<open>The claims\<close>

subsection \<open>C1: Cut and the closed range\<close>

text \<open>
  C1 states that \<open>Cut(left, right)\<close> with \<open>0 \<le> left \<le> right < n\<close> removes exactly
  the positions \<open>left\<close> to \<open>right\<close>. The code does not: \<open>split\<close> hands the
  unchanged index to the right subtree, and \<open>Cut\<close> hands the absolute
  \<open>index_right\<close> to the split of the remainder. On the treap made by
  \<open>Create(10, 20, 30)\<close>, whatever the priorities drawn, \<open>Cut(1, 1)\<close> leaves \<open>[10]\<close>
  where the claim requires \<open>[10, 30]\<close>; with falling priorities \<open>Cut(0, 1)\<close>
  leaves the empty sequence where the claim requires \<open>[30]\<close>.
\<close>

theorem Cut_range_failing_input:
  "fst (Export (Create [10, 20, 30] rnd)) = Some [10, 20, 30] \<and>
   fst (Export (Cut (Create [10, 20, 30] rnd) 1 1)) = Some [10] \<and>
   fst (Export (Cut (Create [10, 20, 30] falling) 0 1)) = Some []"
proof (intro conjI)
  show "fst (Export (Create [10, 20, 30] rnd)) = Some [10, 20, 30]"
    by (simp add: Create_def PushBack_def Export_def sync_Node export_Node eval_nat_numeral)
  show "fst (Export (Cut (Create [10, 20, 30] rnd) 1 1)) = Some [10]"
    by (simp add: Create_def PushBack_def Cut_def Export_def sync_Node split_Node export_Node
          wrap64_def eval_nat_numeral)
  show "fst (Export (Cut (Create [10, 20, 30] falling) 0 1)) = Some []"
    by code_simp
qed

subsection \<open>C2: order of the pushed values\<close>

text \<open>
  C2 states that both \<open>PushFront\<close> and \<open>PushBack\<close> keep the order of their
  arguments. \<open>PushBack\<close> does. \<open>PushFront\<close> merges each new node in front of
  the chain built so far, so the arguments arrive in reverse order, as if
  pushed to the front one at a time. C2 as amended: on a non-nil handle whose
  sequence is \<open>S\<close>, \<open>PushFront(v1, ..., vk)\<close> gives \<open>[vk, ..., v1]\<close> followed by
  \<open>S\<close>, and \<open>PushBack(v1, ..., vk)\<close> gives \<open>S\<close> followed by \<open>[v1, ..., vk]\<close>.
\<close>

theorem Push_order:
  "reachable (Some tr) \<Longrightarrow> fst (Export (Some tr)) = Some S \<Longrightarrow>
   fst (Export (PushFront (Some tr) vs rnd)) = Some (rev vs @ S) \<and>
   fst (Export (PushBack (Some tr) vs rnd)) = Some (S @ vs)"
proof -
  assume r: "reachable (Some tr)" and e: "fst (Export (Some tr)) = Some S"
  have ok: "sizes_ok (Some tr)" by (rule reachable_sizes_ok[OF r])
  have S: "S = contents (Some tr)" using e Export_contents[OF ok] by simp
  have "fst (Export (PushFront (Some tr) vs rnd)) = Some (contents (PushFront (Some tr) vs rnd))"
    using Export_contents[OF sizes_ok_PushFront[OF ok]] by simp
  moreover
  have "fst (Export (PushBack (Some tr) vs rnd)) = Some (contents (PushBack (Some tr) vs rnd))"
    using Export_contents[OF sizes_ok_PushBack[OF ok]] by simp
  ultimately show ?thesis
    by (simp add: S contents_PushFront contents_PushBack)
qed

theorem Push_order_witness:
  "reachable (Some (Treap (Node 5 1 7 nil nil))) \<and>
   fst (Export (Some (Treap (Node 5 1 7 nil nil)))) = Some [5] \<and>
   fst (Export (PushFront (Some (Treap (Node 5 1 7 nil nil))) [1, 2, 3] rising)) = Some [3, 2, 1, 5] \<and>
   fst (Export (PushBack (Some (Treap (Node 5 1 7 nil nil))) [1, 2, 3] rising)) = Some [5, 1, 2, 3]"
proof -
  have c: "Create [5] (\<lambda>_. 7) = Some (Treap (Node 5 1 7 nil nil))"
    by (simp add: Create_def PushBack_def sync_Node)
  have r: "reachable (Some (Treap (Node 5 1 7 nil nil)))"
    using r_Create[of "[5]" "\<lambda>_. 7"] by (simp only: c)
  have e: "fst (Export (Some (Treap (Node 5 1 7 nil nil)))) = Some [5]"
    by code_simp
  show ?thesis
    using Push_order[OF r e, of "[1, 2, 3]" rising] r e by simp
qed

text \<open>The order C2 promises for \<open>PushFront\<close> is not the one the code produces.\<close>

theorem PushFront_order_counterexample:
  "fst (Export (Create [5] falling)) = Some [5] \<and>
   fst (Export (PushFront (Create [5] falling) [1, 2] falling)) \<noteq> Some ([1, 2] @ [5])"
  by code_simp

subsection \<open>C3: order fidelity\<close>

text \<open>
  C3: for every reachable treap and every index \<open>i\<close> with \<open>0 \<le> i < Size()\<close>,
  \<open>Find(i)\<close> returns the element at position \<open>i\<close> of the slice that \<open>Export()\<close>
  returns (and \<open>Export\<close> does return a slice, of length \<open>Size()\<close>).
\<close>

theorem Find_equals_Export:
  "reachable t \<Longrightarrow> 0 \<le> i \<Longrightarrow> i < fst (Size t) \<Longrightarrow>
   \<exists>xs. fst (Export t) = Some xs \<and> int (length xs) = fst (Size t) \<and> fst (Find t i) = xs ! nat i"
proof -
  assume r: "reachable t" and i: "0 \<le> i" "i < fst (Size t)"
  have ok: "sizes_ok t" by (rule reachable_sizes_ok[OF r])
  have sz: "fst (Size t) = int (length (contents t))" by (simp add: Size_contents[OF ok])
  have "fst (Find t i) = contents t ! nat i"
    using Find_contents[OF ok i(1)] i(2) sz by simp
  then show ?thesis
    using sz Export_contents[OF ok] by simp
qed

theorem Find_equals_Export_witness:
  "reachable (Create [10, 20, 30] falling) \<and> (0::int) \<le> 1 \<and>
   1 < fst (Size (Create [10, 20, 30] falling)) \<and>
   fst (Export (Create [10, 20, 30] falling)) = Some [10, 20, 30] \<and>
   fst (Find (Create [10, 20, 30] falling) 1) = [10, 20, 30] ! nat 1"
proof -
  have r: "reachable (Create [10, 20, 30] falling)" by (rule r_Create)
  have sz: "fst (Size (Create [10, 20, 30] falling)) = 3" by code_simp
  have e: "fst (Export (Create [10, 20, 30] falling)) = Some [10, 20, 30]" by code_simp
  from Find_equals_Export[OF r, of 1] sz e
  have "fst (Find (Create [10, 20, 30] falling) 1) = [10, 20, 30] ! nat 1" by simp
  with r sz e show ?thesis by simp
qed

subsection \<open>C4: split and merge\<close>

text \<open>
  C4: for every reachable treap \<open>T\<close> and every \<open>k\<close> with \<open>0 \<le> k < Size(T)\<close>,
  merging the two treaps returned by \<open>Split(T, k)\<close> gives a treap whose
  \<open>Export\<close> equals the \<open>Export\<close> of \<open>T\<close> before the split.
\<close>

theorem Split_Merge_roundtrip:
  "reachable T \<Longrightarrow> 0 \<le> k \<Longrightarrow> k < fst (Size T) \<Longrightarrow>
   \<exists>xs. fst (Export T) = Some xs \<and>
        fst (Export (Merge (fst (Split T k)) (snd (Split T k)))) = Some xs"
proof -
  assume r: "reachable T"
  have ok: "sizes_ok T" by (rule reachable_sizes_ok[OF r])
  have ok': "sizes_ok (Merge (fst (Split T k)) (snd (Split T k)))"
    using sizes_ok_Split[OF ok, of k] by (simp add: sizes_ok_Merge)
  have "contents (Merge (fst (Split T k)) (snd (Split T k))) = contents T"
    by (cases T rule: sizes_ok.cases)
       (simp_all add: Split_Some Merge_def seq_of_merge seq_of_split, simp add: Split_def)
  then show ?thesis
    using Export_contents[OF ok] Export_contents[OF ok'] by simp
qed

theorem Split_Merge_roundtrip_witness:
  "reachable (Create [10, 20, 30] falling) \<and> (0::int) \<le> 1 \<and>
   1 < fst (Size (Create [10, 20, 30] falling)) \<and>
   fst (Export (Create [10, 20, 30] falling)) = Some [10, 20, 30] \<and>
   fst (Export (Merge (fst (Split (Create [10, 20, 30] falling) 1))
                      (snd (Split (Create [10, 20, 30] falling) 1)))) = Some [10, 20, 30]"
proof -
  have r: "reachable (Create [10, 20, 30] falling)" by (rule r_Create)
  have sz: "fst (Size (Create [10, 20, 30] falling)) = 3" by code_simp
  have e: "fst (Export (Create [10, 20, 30] falling)) = Some [10, 20, 30]" by code_simp
  from Split_Merge_roundtrip[OF r, of 1] sz e
  have "fst (Export (Merge (fst (Split (Create [10, 20, 30] falling) 1))
                           (snd (Split (Create [10, 20, 30] falling) 1)))) = Some [10, 20, 30]"
    by simp
  with r sz e show ?thesis by simp
qed

subsection \<open>C5: size invariant\<close>

text \<open>
  C5: after any finite sequence of operations of the public interface, every
  node of every resulting tree has \<open>size = 1 + leftSize + rightSize\<close> (an absent
  child counting 0), so no operation leaves a stale size to the next one; in
  particular \<open>Size()\<close> is the number of elements.
\<close>

theorem size_invariant:
  "reachable t \<Longrightarrow> sizes_ok t \<and> fst (Size t) = int (length (contents t))"
  using reachable_sizes_ok[of t] Size_contents[of t] by simp

theorem size_invariant_witness:
  "reachable (Insert (Cut (Create [10, 20, 30, 40] rising) 1 2) 1 99 5) \<and>
   sizes_ok (Insert (Cut (Create [10, 20, 30, 40] rising) 1 2) 1 99 5) \<and>
   fst (Size (Insert (Cut (Create [10, 20, 30, 40] rising) 1 2) 1 99 5)) =
     int (length (contents (Insert (Cut (Create [10, 20, 30, 40] rising) 1 2) 1 99 5)))"
proof -
  have r: "reachable (Insert (Cut (Create [10, 20, 30, 40] rising) 1 2) 1 99 5)"
    by (intro r_Insert r_Cut r_Create)
  from size_invariant[OF r] r show ?thesis by simp
qed

subsection \<open>C6: heap invariant\<close>

text \<open>
  C6: after any finite sequence of operations of the public interface, and for
  any outcome of the priority draws, the priority of every node is greater
  than or equal to the priority of each of its present children.
\<close>

theorem heap_invariant: "reachable t \<Longrightarrow> heaps_ok t"
  by (rule reachable_heaps_ok)

theorem heap_invariant_witness:
  "reachable (Delete (PushFront (Create [10, 20, 30] falling) [1, 2] rising) 2) \<and>
   heaps_ok (Delete (PushFront (Create [10, 20, 30] falling) [1, 2] rising) 2)"
proof -
  have r: "reachable (Delete (PushFront (Create [10, 20, 30] falling) [1, 2] rising) 2)"
    by (intro r_Delete r_PushFront r_Create)
  from heap_invariant[OF r] r show ?thesis by simp
qed

subsection \<open>C7: Insert\<close>

text \<open>
  C7 states what \<open>Insert(index, v)\<close> does on a sequence \<open>S\<close> of size \<open>n\<close>: a
  single node on the empty treap, \<open>v\<close> in front for \<open>index \<le> 0\<close>, \<open>v\<close> at the back
  for \<open>index \<ge> n - 1\<close>, and \<open>v\<close> at position \<open>index\<close> for \<open>0 < index < n - 1\<close>. The
  first three cases hold (\<open>contents_Insert_clamped\<close>). The last one does not:
  \<open>split\<close> hands the unchanged index to the right subtree, so the cut lies
  further right than \<open>index - 1\<close> unless the node at \<open>index - 1\<close> is on the
  left spine. On \<open>Create(10, 20, 30, 40)\<close> with falling priorities,
  \<open>Insert(2, 99)\<close> gives \<open>[10, 20, 30, 40, 99]\<close> for every priority of the new
  node, where the claim requires \<open>[10, 20, 99, 30, 40]\<close>.
\<close>

theorem Insert_middle_failing_input:
  "fst (Export (Create [10, 20, 30, 40] falling)) = Some [10, 20, 30, 40] \<and>
   fst (Size (Create [10, 20, 30, 40] falling)) = 4 \<and>
   fst (Export (Insert (Create [10, 20, 30, 40] falling) 2 99 prio)) = Some [10, 20, 30, 40, 99]"
proof (intro conjI)
  show "fst (Export (Create [10, 20, 30, 40] falling)) = Some [10, 20, 30, 40]"
    by code_simp
  show "fst (Size (Create [10, 20, 30, 40] falling)) = 4"
    by code_simp
  show "fst (Export (Insert (Create [10, 20, 30, 40] falling) 2 99 prio))
          = Some [10, 20, 30, 40, 99]"
    by (simp add: Create_def PushBack_def Insert_def Export_def falling_def sync_Node
          split_Node export_Node wrap64_def eval_nat_numeral)
qed

subsection \<open>C8: nil handles and out-of-range arguments\<close>

text \<open>
  C8: every operation on a nil handle returns without a fault and changes
  nothing (\<open>Size\<close> returns 0, \<open>Find\<close> returns 0, \<open>Export\<close> returns the nil slice,
  \<open>Merge\<close> returns its other argument, \<open>Split\<close> returns two nil handles); on any
  handle, \<open>Delete\<close> with a negative or past-end index and \<open>Cut\<close> with an inverted
  range, a negative right index or a past-end left index leave the treap as
  it is, and \<open>Find\<close> with such an index returns 0.
\<close>

theorem graceful_degradation:
  "(Insert None i v q = None \<and> PushFront None vs rnd = None \<and> PushBack None vs rnd = None \<and>
    Cut None il ir = None \<and> Delete None i = None \<and>
    Size None = (0, None) \<and> Find None i = (0, None) \<and> Export None = (Some [], None) \<and>
    Merge None t = t \<and> Merge t None = t \<and> Split None i = (None, None)) \<and>
   (i < 0 \<or> fst (Size t) \<le> i \<longrightarrow> Delete t i = t \<and> Find t i = (0, t)) \<and>
   (ir < il \<or> ir < 0 \<or> fst (Size t) \<le> il \<longrightarrow> Cut t il ir = t)"
  by (simp add: Insert_def PushFront_def PushBack_def Cut_def Delete_def Size_def Find_def
        Export_def Merge_def Split_def split: option.splits Treap.splits node.splits)

theorem graceful_degradation_witness:
  "((7::int) < 0 \<or> fst (Size (Create [10, 20, 30] falling)) \<le> 7) \<and>
   Delete (Create [10, 20, 30] falling) 7 = Create [10, 20, 30] falling \<and>
   Find (Create [10, 20, 30] falling) 7 = (0, Create [10, 20, 30] falling) \<and>
   ((1::int) < 2 \<or> (1::int) < 0 \<or> fst (Size (Create [10, 20, 30] falling)) \<le> 2) \<and>
   Cut (Create [10, 20, 30] falling) 2 1 = Create [10, 20, 30] falling"
proof -
  have sz: "fst (Size (Create [10, 20, 30] falling)) = 3" by code_simp
  from graceful_degradation[of 7 _ _ _ _ 2 1 "Create [10, 20, 30] falling"] sz
  show ?thesis by simp
qed

subsection \<open>C9: Delete and Cut\<close>

text \<open>
  C9: for every handle (the nil handle and the empty treap included) and
  every index \<open>i\<close>, \<open>Delete(i)\<close> leaves the treap in the state in which
  \<open>Cut(i, i)\<close> leaves it, the cases where nothing happens included.
\<close>

theorem Delete_is_Cut: "Delete t i = Cut t i i"
  by (simp add: Delete_def Cut_def split: option.splits Treap.splits node.splits)

subsection \<open>C10: read-only methods\<close>

text \<open>
  C10: \<open>Find\<close>, \<open>Size\<close> and \<open>Export\<close> leave the treap as it was: the state of the
  handle after the call is the state before it, for every handle and index.
\<close>

theorem read_only_methods:
  "snd (Find t i) = t \<and> snd (Size t) = t \<and> snd (Export t) = t"
  by (simp add: Find_def Size_def Export_def split: option.splits Treap.splits node.splits)

end
